theory Spec2Isabelle
  imports Complex_Main "HOL-Library.Word"
begin

unbundle bit_operations_syntax

section \<open>Bytes, hexadecimal text and float32 bit patterns\<close>

text \<open>
  A Python \<open>bytes\<close> object is a list of 8-bit words and a \<open>str\<close> is a \<open>string\<close>.
  \<open>struct.unpack('<f', b)\<close> yields the IEEE-754 binary32 value whose little-endian
  encoding is \<open>b\<close>; that value is represented here by its 32-bit pattern, which
  identifies it uniquely (and keeps NaN payloads apart).
\<close>

type_synonym byte = "8 word"
type_synonym bytes = "byte list"
type_synonym f32 = "32 word"

text \<open>The six-field sample of \<open>main.py\<close> and \<open>src/imu_data.py\<close>; the decoder fills it
  with float32 values, the head tracker reads it as numbers.\<close>

record 'a IMUData =
  gx :: 'a
  gy :: 'a
  gz :: 'a
  ax :: 'a
  ay :: 'a
  az :: 'a

definition HEADER :: bytes where
  "HEADER = [0x28, 0x36, 0x00, 0x00, 0x00, 0x80]"

definition FOOTER :: bytes where
  "FOOTER = [0x00, 0x00, 0x00, 0xcf, 0xf7, 0x53, 0xe3, 0xa5, 0x9b, 0x00,
             0x00, 0xdb, 0x34, 0xb6, 0xd7, 0x82, 0xde, 0x1b, 0x43]"

definition SENSOR_MSG :: bytes where
  "SENSOR_MSG = [0x00, 0x40, 0x1f, 0x00, 0x00, 0x40]"

definition DATA_START_OFFSET :: int where
  "DATA_START_OFFSET = 20"

definition DATA_END_OFFSET :: int where
  "DATA_END_OFFSET = - 26"

text \<open>Python slicing \<open>xs[i:j]\<close>: a negative index counts from the end, and both
  indices are clamped to the sequence.\<close>

definition py_index :: "nat \<Rightarrow> int \<Rightarrow> nat" where
  "py_index n i = (if i < 0 then nat (max 0 (int n + i)) else min n (nat i))"

definition py_slice :: "'a list \<Rightarrow> int \<Rightarrow> int \<Rightarrow> 'a list" where
  "py_slice xs i j = drop (py_index (length xs) i) (take (py_index (length xs) j) xs)"

definition endswith :: "'a list \<Rightarrow> 'a list \<Rightarrow> bool" where
  "endswith xs suf =
     (length suf \<le> length xs \<and> drop (length xs - length suf) xs = suf)"

text \<open>\<open>bytes.hex()\<close>: two lower-case digits per byte.\<close>

definition hex_digit :: "nat \<Rightarrow> char" where
  "hex_digit n = ''0123456789abcdef'' ! n"

definition bytes_hex :: "bytes \<Rightarrow> string" where
  "bytes_hex bs =
     concat (map (\<lambda>b. [hex_digit (unat b div 16), hex_digit (unat b mod 16)]) bs)"

text \<open>\<open>bytes.fromhex\<close>: pairs of hexadecimal digits of either case, ASCII white
  space allowed between pairs; \<open>None\<close> stands for the \<open>ValueError\<close> it raises.\<close>

definition hexval :: "char \<Rightarrow> nat option" where
  "hexval c =
     (let n = (of_char c :: nat) in
      if 48 \<le> n \<and> n \<le> 57 then Some (n - 48)
      else if 97 \<le> n \<and> n \<le> 102 then Some (n - 87)
      else if 65 \<le> n \<and> n \<le> 70 then Some (n - 55)
      else None)"

definition is_space :: "char \<Rightarrow> bool" where
  "is_space c = ((of_char c :: nat) \<in> {9, 10, 11, 12, 13, 32})"

fun fromhex :: "string \<Rightarrow> bytes option" where
  "fromhex [] = Some []"
| "fromhex [c] = (if is_space c then Some [] else None)"
| "fromhex (c # d # cs) =
     (if is_space c then fromhex (d # cs)
      else (case (hexval c, hexval d) of
              (Some h, Some l) \<Rightarrow>
                (case fromhex cs of
                   Some bs \<Rightarrow> Some (of_nat (16 * h + l) # bs)
                 | None \<Rightarrow> None)
            | _ \<Rightarrow> None))"

text \<open>\<open>struct.unpack('<f', b)\<close>: exactly four bytes, least significant first;
  \<open>None\<close> stands for \<open>struct.error\<close>. \<open>pack_f32\<close> is \<open>struct.pack('<f', v)\<close>
  on a value that is a float32.\<close>

definition unpack_f32 :: "bytes \<Rightarrow> f32 option" where
  "unpack_f32 bs =
     (case bs of
        [b0, b1, b2, b3] \<Rightarrow>
          Some (ucast b0 OR push_bit 8 (ucast b1) OR push_bit 16 (ucast b2)
                OR push_bit 24 (ucast b3))
      | _ \<Rightarrow> None)"

definition pack_f32 :: "f32 \<Rightarrow> bytes" where
  "pack_f32 w = [ucast w, ucast (drop_bit 8 w), ucast (drop_bit 16 w), ucast (drop_bit 24 w)]"

text \<open>IEEE-754 binary32: a value is an infinity or a NaN exactly when its eight
  exponent bits (bits 23 to 30) are all set.\<close>

definition f32_nonfinite :: "f32 \<Rightarrow> bool" where
  "f32_nonfinite w = (take_bit 8 (drop_bit 23 w) = 255)"

section \<open>The frame decoder (\<open>main.py\<close>)\<close>

text \<open>\<open>[hex_data[i:i+8] for i in range(0, len(hex_data), 8)]\<close>\<close>

fun chunks8 :: "'a list \<Rightarrow> 'a list list" where
  "chunks8 [] = []"
| "chunks8 (x # xs) = take 8 (x # xs) # chunks8 (drop 7 xs)"

text \<open>\<open>IMUReader.decode_imu_data\<close>. The \<open>try\<close> block turns a \<open>ValueError\<close> of
  \<open>bytes.fromhex\<close> and a \<open>struct.error\<close> of \<open>struct.unpack\<close> into \<open>None\<close>.\<close>

definition unpack_chunk :: "string \<Rightarrow> f32 option" where
  "unpack_chunk chunk = (case fromhex chunk of None \<Rightarrow> None | Some bs \<Rightarrow> unpack_f32 bs)"

definition decode_imu_data :: "string \<Rightarrow> f32 IMUData option" where
  "decode_imu_data hex_data =
     (if length hex_data < 48 then None
      else let chunks = chunks8 hex_data in
        if length chunks < 6 then None
        else (case those (map unpack_chunk (take 6 chunks)) of
                None \<Rightarrow> None
              | Some values \<Rightarrow>
                  Some \<lparr>gx = values ! 5, gy = values ! 4, gz = values ! 3,
                        ax = values ! 0, ay = values ! 1, az = values ! 2\<rparr>))"

text \<open>\<open>IMUReader.process_message\<close>. The two slices of the source are named:
  \<open>strip_message\<close> is \<open>message[len(HEADER) + 8:-len(FOOTER) - 31]\<close> and
  \<open>imu_window\<close> is \<open>data[DATA_START_OFFSET:DATA_END_OFFSET]\<close>.\<close>

definition strip_message :: "bytes \<Rightarrow> bytes" where
  "strip_message message =
     py_slice message (int (length HEADER) + 8) (- int (length FOOTER) - 31)"

definition imu_window :: "bytes \<Rightarrow> bytes" where
  "imu_window data = py_slice data DATA_START_OFFSET DATA_END_OFFSET"

definition process_message :: "bytes \<Rightarrow> f32 IMUData option" where
  "process_message message =
     (if length message < length HEADER + 8 + length FOOTER + 31 then None
      else let data = strip_message message in
        if \<not> endswith data SENSOR_MSG then None
        else if int (length data) < DATA_START_OFFSET + \<bar>DATA_END_OFFSET\<bar> then None
        else decode_imu_data (bytes_hex (imu_window data)))"

section \<open>The framing loop (\<open>IMUReader.run\<close>)\<close>

text \<open>\<open>bytes.find(sub)\<close>: the index of the first occurrence, \<open>None\<close> for \<open>-1\<close>.\<close>

fun find_sub :: "'a list \<Rightarrow> 'a list \<Rightarrow> nat option" where
  "find_sub sub [] = (if sub = [] then Some 0 else None)"
| "find_sub sub (x # xs) =
     (if take (length sub) (x # xs) = sub then Some 0
      else map_option Suc (find_sub sub xs))"

text \<open>\<open>bytes.find(sub, start)\<close> for \<open>start \<ge> 0\<close>.\<close>

definition find_from :: "'a list \<Rightarrow> 'a list \<Rightarrow> nat \<Rightarrow> nat option" where
  "find_from sub xs start =
     (if length xs < start then None
      else map_option (\<lambda>i. i + start) (find_sub sub (drop start xs)))"

text \<open>One pass of the inner \<open>while True\<close> loop: \<open>None\<close> when it breaks, otherwise
  the message cut out and the buffer that is left.\<close>

definition next_message :: "bytes \<Rightarrow> (bytes \<times> bytes) option" where
  "next_message recv_buffer =
     (case find_sub HEADER recv_buffer of
        None \<Rightarrow> None
      | Some header_pos \<Rightarrow>
          (case find_from FOOTER recv_buffer header_pos of
             None \<Rightarrow> None
           | Some footer_pos \<Rightarrow>
               (let message_end = footer_pos + length FOOTER
                in Some (drop header_pos (take message_end recv_buffer),
                         drop message_end recv_buffer))))"

text \<open>The inner \<open>while True\<close> loop run until it breaks: the messages cut out, in
  order, and the buffer that stays behind. Each pass shortens the buffer, so the loop
  ends.\<close>

function drain :: "bytes \<Rightarrow> bytes list \<times> bytes" where
  "drain recv_buffer =
     (case next_message recv_buffer of
        None \<Rightarrow> ([], recv_buffer)
      | Some (message, rest) \<Rightarrow>
          (let (messages, left) = drain rest in (message # messages, left)))"
  by pat_completeness auto
termination
proof (relation "measure length")
  show "wf (measure (length :: bytes \<Rightarrow> nat))"
    by simp
next
  fix recv_buffer :: bytes and x2 :: "bytes \<times> bytes" and message rest :: bytes
  assume nm: "next_message recv_buffer = Some x2" and x2: "(message, rest) = x2"
  have "recv_buffer \<noteq> []"
  proof
    assume "recv_buffer = []"
    with nm show False by (simp add: next_message_def HEADER_def)
  qed
  moreover have "rest = drop (length recv_buffer - length rest) recv_buffer
      \<and> length FOOTER \<le> length recv_buffer - length rest \<or> length rest = 0"
    using nm x2
    by (auto simp: next_message_def Let_def split: option.splits)
  ultimately show "(rest, recv_buffer) \<in> measure length"
    by (auto simp: FOOTER_def)
qed

text \<open>One pass of the outer loop after a non-empty \<open>recv\<close>: \<open>recv_buffer += data\<close>,
  then the inner loop.\<close>

definition feed :: "bytes \<Rightarrow> bytes \<Rightarrow> bytes list \<times> bytes" where
  "feed recv_buffer data = drain (recv_buffer @ data)"

text \<open>Chunks fed one at a time, the buffer carried from one to the next.\<close>

fun feed_all :: "bytes \<Rightarrow> bytes list \<Rightarrow> bytes list \<times> bytes" where
  "feed_all recv_buffer [] = ([], recv_buffer)"
| "feed_all recv_buffer (data # chunks) =
     (let (messages, buf) = feed recv_buffer data;
          (more, left) = feed_all buf chunks
      in (messages @ more, left))"

text \<open>The outer loop of \<open>IMUReader.run\<close> over the successive results of
  \<open>sock.recv\<close>: an empty result means that the device closed the connection and ends
  the loop; the messages are handed to \<open>process_message\<close> in order, and the callback
  sees those that decode.\<close>

fun run_loop :: "bytes \<Rightarrow> bytes list \<Rightarrow> bytes list" where
  "run_loop recv_buffer [] = []"
| "run_loop recv_buffer (data # received) =
     (if data = [] then []
      else let (messages, buf) = feed recv_buffer data
           in messages @ run_loop buf received)"

definition decoded :: "bytes list \<Rightarrow> f32 IMUData list" where
  "decoded messages = List.map_filter process_message messages"

definition run :: "bytes list \<Rightarrow> f32 IMUData list" where
  "run received = decoded (run_loop [] received)"

section \<open>The head tracker (\<open>src/head_tracker.py\<close>)\<close>

text \<open>
  Python floats are modelled as real numbers: rounding, signed zeros, infinities and
  NaN are outside the model. \<open>time.time()\<close> is an argument (\<open>now\<close>) of the operations
  that read the clock. A calibration sample \<open>[gx, gy, gz]\<close> is a triple.
\<close>

record HeadTracker =
  gyro_bias_x :: real
  gyro_bias_y :: real
  gyro_bias_z :: real
  is_calibrated :: bool
  calibration_samples :: "(real \<times> real \<times> real) list"
  calibration_count :: nat
  calibration_target :: nat
  pitch :: real
  yaw :: real
  roll :: real
  zero_pitch :: real
  zero_yaw :: real
  zero_roll :: real
  last_time :: real
  movement_threshold :: real
  pitch_scale :: real
  yaw_scale :: real
  roll_scale :: real

text \<open>\<open>HeadTracker.__init__\<close>\<close>

definition init_tracker :: "real \<Rightarrow> HeadTracker" where
  "init_tracker now =
     \<lparr>gyro_bias_x = 0, gyro_bias_y = 0, gyro_bias_z = 0,
      is_calibrated = False, calibration_samples = [], calibration_count = 0,
      calibration_target = 500,
      pitch = 0, yaw = 0, roll = 0,
      zero_pitch = 0, zero_yaw = 0, zero_roll = 0,
      last_time = now, movement_threshold = 1 / 2,
      pitch_scale = 3, yaw_scale = 60, roll_scale = 1\<rparr>"

text \<open>\<open>HeadTracker.calibrate_gyroscope\<close>: the returned flag and the new state.\<close>

definition calibrate_gyroscope :: "HeadTracker \<Rightarrow> real IMUData \<Rightarrow> bool \<times> HeadTracker" where
  "calibrate_gyroscope t imu_data =
     (if is_calibrated t then (True, t)
      else let t1 = t\<lparr>calibration_samples :=
                       calibration_samples t @ [(gx imu_data, gy imu_data, gz imu_data)],
                     calibration_count := calibration_count t + 1\<rparr>
        in if calibration_count t1 \<ge> calibration_target t1 then
             (let samples = calibration_samples t1 in
              (True,
               t1\<lparr>gyro_bias_x := sum_list (map fst samples) / real (length samples),
                  gyro_bias_y := sum_list (map (fst \<circ> snd) samples) / real (length samples),
                  gyro_bias_z := sum_list (map (snd \<circ> snd) samples) / real (length samples),
                  is_calibrated := True,
                  pitch := 0, yaw := 0, roll := 0,
                  last_time := 0\<rparr>))
           else (False, t1))"

text \<open>\<open>HeadTracker.reset_calibration\<close>\<close>

definition reset_calibration :: "HeadTracker \<Rightarrow> HeadTracker" where
  "reset_calibration t =
     t\<lparr>calibration_samples := [], calibration_count := 0, is_calibrated := False,
       gyro_bias_x := 0, gyro_bias_y := 0, gyro_bias_z := 0\<rparr>"

text \<open>\<open>HeadTracker.zero_view\<close>\<close>

definition zero_view :: "HeadTracker \<Rightarrow> HeadTracker" where
  "zero_view t = t\<lparr>zero_pitch := pitch t, zero_yaw := yaw t, zero_roll := roll t\<rparr>"

text \<open>\<open>HeadTracker._wrap_angle\<close>: the two \<open>while\<close> loops, one after the other.\<close>

function wrap_down :: "real \<Rightarrow> real" where
  "wrap_down angle = (if angle > 180 then wrap_down (angle - 360) else angle)"
  by pat_completeness auto
termination
proof (relation "measure (\<lambda>a. nat \<lceil>(a - 180) / 360\<rceil>)")
  show "wf (measure (\<lambda>a::real. nat \<lceil>(a - 180) / 360\<rceil>))"
    by simp
next
  fix angle :: real
  assume gt: "180 < angle"
  have step: "(angle - 360 - 180) / 360 = (angle - 180) / 360 - 1"
    by (simp add: diff_divide_distrib)
  have "\<lceil>(angle - 360 - 180) / 360\<rceil> = \<lceil>(angle - 180) / 360\<rceil> - 1"
    by (simp only: step ceiling_diff_one)
  moreover from gt have "0 < \<lceil>(angle - 180) / 360\<rceil>"
    by simp
  ultimately show "(angle - 360, angle) \<in> measure (\<lambda>a. nat \<lceil>(a - 180) / 360\<rceil>)"
    by simp
qed

function wrap_up :: "real \<Rightarrow> real" where
  "wrap_up angle = (if angle < - 180 then wrap_up (angle + 360) else angle)"
  by pat_completeness auto
termination
proof (relation "measure (\<lambda>a. nat \<lceil>(- 180 - a) / 360\<rceil>)")
  show "wf (measure (\<lambda>a::real. nat \<lceil>(- 180 - a) / 360\<rceil>))"
    by simp
next
  fix angle :: real
  assume lt: "angle < - 180"
  have step: "(- 180 - (angle + 360)) / 360 = (- 180 - angle) / 360 - 1"
    by (simp add: diff_divide_distrib)
  have "\<lceil>(- 180 - (angle + 360)) / 360\<rceil> = \<lceil>(- 180 - angle) / 360\<rceil> - 1"
    by (simp only: step ceiling_diff_one)
  moreover from lt have "0 < \<lceil>(- 180 - angle) / 360\<rceil>"
    by simp
  ultimately show "(angle + 360, angle) \<in> measure (\<lambda>a. nat \<lceil>(- 180 - a) / 360\<rceil>)"
    by simp
qed

definition wrap_angle :: "real \<Rightarrow> real" where
  "wrap_angle angle = wrap_up (wrap_down angle)"

text \<open>\<open>HeadTracker.get_relative_orientation\<close>: the dictionary with the keys
  \<open>pitch\<close>, \<open>yaw\<close> and \<open>roll\<close>, as a record.\<close>

record orientation =
  rel_pitch :: real
  rel_yaw :: real
  rel_roll :: real

definition get_relative_orientation :: "HeadTracker \<Rightarrow> orientation" where
  "get_relative_orientation t =
     \<lparr>rel_pitch = wrap_angle ((pitch t - zero_pitch t) * pitch_scale t),
      rel_yaw = wrap_angle ((yaw t - zero_yaw t) * yaw_scale t),
      rel_roll = wrap_angle ((roll t - zero_roll t) * roll_scale t)\<rparr>"

text \<open>\<open>HeadTracker.get_calibration_progress\<close>\<close>

definition get_calibration_progress :: "HeadTracker \<Rightarrow> real" where
  "get_calibration_progress t =
     (real (calibration_count t) / real (calibration_target t)) * 100"

text \<open>\<open>math.atan2(y, x)\<close> on the reals, by quadrant.\<close>

definition atan2 :: "real \<Rightarrow> real \<Rightarrow> real" where
  "atan2 y x =
     (if 0 < x then arctan (y / x)
      else if x < 0 then (if 0 \<le> y then arctan (y / x) + pi else arctan (y / x) - pi)
      else if 0 < y then pi / 2
      else if y < 0 then - (pi / 2)
      else 0)"

text \<open>\<open>HeadTracker.update\<close>, with the clock reading \<open>current_time\<close> as an argument.\<close>

definition update :: "HeadTracker \<Rightarrow> real IMUData \<Rightarrow> real \<Rightarrow> HeadTracker" where
  "update t imu_data current_time =
     (if \<not> is_calibrated t then t
      else let dt = current_time - last_time t in
        if last_time t = 0 then t\<lparr>last_time := current_time\<rparr>
        else
          let gyro_x = gx imu_data - gyro_bias_x t;
              gyro_y = gy imu_data - gyro_bias_y t;
              gyro_z = gz imu_data - gyro_bias_z t;
              pitch_gyro = pitch t + gyro_x * dt;
              yaw_gyro = yaw t + gyro_y * dt;
              roll_gyro = roll t + gyro_z * dt;
              a_x = ax imu_data; a_y = ay imu_data; a_z = az imu_data;
              acc_magnitude = sqrt (a_x * a_x + a_y * a_y + a_z * a_z);
              t1 = (if acc_magnitude > 1 / 100 then
                      let pitch_accel = atan2 (- a_x) (sqrt (a_y * a_y + a_z * a_z)) * 180 / pi;
                          roll_accel = atan2 a_y a_z * 180 / pi;
                          alpha = 96 / 100
                      in t\<lparr>pitch := alpha * pitch_gyro + (1 - alpha) * pitch_accel,
                           yaw := yaw_gyro,
                           roll := alpha * roll_gyro + (1 - alpha) * roll_accel\<rparr>
                    else t\<lparr>pitch := pitch_gyro, yaw := yaw_gyro, roll := roll_gyro\<rparr>)
          in t1\<lparr>pitch := wrap_angle (pitch t1),
                yaw := wrap_angle (yaw t1),
                roll := wrap_angle (roll t1),
                last_time := current_time\<rparr>)"

text \<open>The calls a client can make on a tracker, and a run of them from a fresh
  tracker.\<close>

datatype call =
  Calibrate "real IMUData"
| Update "real IMUData" real
| ZeroView
| ResetCalibration

fun exec :: "HeadTracker \<Rightarrow> call \<Rightarrow> HeadTracker" where
  "exec t (Calibrate d) = snd (calibrate_gyroscope t d)"
| "exec t (Update d now) = update t d now"
| "exec t ZeroView = zero_view t"
| "exec t ResetCalibration = reset_calibration t"

definition run_calls :: "real \<Rightarrow> call list \<Rightarrow> HeadTracker" where
  "run_calls now cs = foldl exec (init_tracker now) cs"

section \<open>Test inputs\<close>

text \<open>The six float32 values of a sample as the device sends them, in the order
  \<open>ax, ay, az, gz, gy, gx\<close>: \<open>struct.pack('<6f', ax, ay, az, gz, gy, gx)\<close>.\<close>

definition pack_window :: "f32 IMUData \<Rightarrow> bytes" where
  "pack_window v =
     pack_f32 (ax v) @ pack_f32 (ay v) @ pack_f32 (az v)
       @ pack_f32 (gz v) @ pack_f32 (gy v) @ pack_f32 (gx v)"

text \<open>A frame laid out as the wire format says: start marker, 8 session-id bytes, a
  payload of 20 leading bytes (\<open>lead\<close>), the six packed values, the bytes between them
  and the sensor-message marker (\<open>mid\<close>, 20 of them when the window ends 26 bytes
  before the end of the payload) and the sensor-message marker, then 31 trailing
  bytes and the end marker.\<close>

definition sensor_frame ::
    "bytes \<Rightarrow> bytes \<Rightarrow> f32 IMUData \<Rightarrow> bytes \<Rightarrow> bytes \<Rightarrow> bytes" where
  "sensor_frame session lead v mid trail =
     HEADER @ session @ lead @ pack_window v @ mid @ SENSOR_MSG @ trail @ FOOTER"

text \<open>The two placements of the numeric window that the description of the wire
  format gives: the 24 bytes at offset 20 of the stripped payload, \<open>data[20:44]\<close>, and
  the 24 bytes that end 26 bytes before the end of the payload, \<open>data[-50:-26]\<close>.\<close>

definition window_from_start :: "bytes \<Rightarrow> bytes" where
  "window_from_start data = py_slice data 20 44"

definition window_from_end :: "bytes \<Rightarrow> bytes" where
  "window_from_end data = py_slice data (- 50) (- 26)"

text \<open>Two concrete frames. \<open>rest_frame mid\<close> carries the sample of a sensor at rest,
  accelerometer \<open>(0, 0, -1.0)\<close> (\<open>0xBF800000\<close> is the float32 \<open>-1.0\<close>), with the bytes
  \<open>mid\<close> between the values and the sensor-message marker; \<open>inf_frame\<close> carries
  \<open>+infinity\<close> (\<open>0x7F800000\<close>) as its first value.\<close>

definition rest_frame :: "bytes \<Rightarrow> bytes" where
  "rest_frame mid =
     sensor_frame [1, 2, 3, 4, 5, 6, 7, 8] (replicate 20 0)
       \<lparr>gx = 0, gy = 0, gz = 0, ax = 0, ay = 0, az = 0xBF800000\<rparr> mid (replicate 31 0)"

definition inf_frame :: bytes where
  "inf_frame =
     sensor_frame [1, 2, 3, 4, 5, 6, 7, 8] (replicate 20 0)
       \<lparr>gx = 0, gy = 0, gz = 0, ax = 0x7F800000, ay = 0, az = 0xBF800000\<rparr>
       (replicate 20 0) (replicate 31 0)"

text \<open>A byte stream holding two frames of a sensor at rest with stray bytes before
  and between them, and the same stream as the device might deliver it, cut inside
  the first and inside the second frame.\<close>

definition two_frames :: bytes where
  "two_frames = [7, 7] @ rest_frame (replicate 20 9) @ [8] @ rest_frame (replicate 20 9)"

definition split_stream :: "bytes list" where
  "split_stream = [take 60 two_frames, take 100 (drop 60 two_frames), drop 160 two_frames]"



text \<open>The invariant that ties the calibration fields together.\<close>

definition calibration_inv :: "HeadTracker \<Rightarrow> bool" where
  "calibration_inv t =
     (calibration_target t = 500
      \<and> calibration_count t \<le> calibration_target t
      \<and> is_calibrated t = (calibration_count t = calibration_target t)
      \<and> calibration_count t = length (calibration_samples t))"

text \<open>Samples handed to \<open>calibrate_gyroscope\<close> one after the other, as the
  callbacks do while the tracker is not calibrated.\<close>

definition calibrate_all :: "HeadTracker \<Rightarrow> real IMUData list \<Rightarrow> HeadTracker" where
  "calibrate_all t ds = foldl (\<lambda>t d. snd (calibrate_gyroscope t d)) t ds"

text \<open>All three angles within the closed range of the wrap.\<close>

definition angles_in_range :: "HeadTracker \<Rightarrow> bool" where
  "angles_in_range t =
     (- 180 \<le> pitch t \<and> pitch t \<le> 180
      \<and> - 180 \<le> yaw t \<and> yaw t \<le> 180
      \<and> - 180 \<le> roll t \<and> roll t \<le> 180)"




section \<open>Facts about the angle wrap\<close>

declare wrap_down.simps [simp del] wrap_up.simps [simp del]

lemma wrap_down_gt: "180 < a \<Longrightarrow> wrap_down a = wrap_down (a - 360)"
  by (subst wrap_down.simps) simp

lemma wrap_down_le: "a \<le> 180 \<Longrightarrow> wrap_down a = a"
  by (subst wrap_down.simps) simp

lemma wrap_up_lt: "a < - 180 \<Longrightarrow> wrap_up a = wrap_up (a + 360)"
  by (subst wrap_up.simps) simp

lemma wrap_up_ge: "- 180 \<le> a \<Longrightarrow> wrap_up a = a"
  by (subst wrap_up.simps) simp

lemma wrap_down_range: "wrap_down a \<le> 180 \<and> (180 < a \<longrightarrow> - 180 < wrap_down a)"
proof (induction a rule: wrap_down.induct)
  case (1 angle)
  show ?case
  proof (cases "180 < angle")
    case True
    then have eq: "wrap_down angle = wrap_down (angle - 360)"
      by (rule wrap_down_gt)
    have ih: "wrap_down (angle - 360) \<le> 180
        \<and> (180 < angle - 360 \<longrightarrow> - 180 < wrap_down (angle - 360))"
      using 1 True by blast
    show ?thesis
    proof (cases "180 < angle - 360")
      case True
      with ih show ?thesis unfolding eq by blast
    next
      case False
      then have "wrap_down (angle - 360) = angle - 360"
        by (intro wrap_down_le) linarith
      with True False show ?thesis unfolding eq by auto
    qed
  next
    case False
    then have "wrap_down angle = angle"
      by (intro wrap_down_le) linarith
    with False show ?thesis by linarith
  qed
qed

lemma wrap_up_range: "- 180 \<le> wrap_up a \<and> (a < - 180 \<longrightarrow> wrap_up a < 180)"
proof (induction a rule: wrap_up.induct)
  case (1 angle)
  show ?case
  proof (cases "angle < - 180")
    case True
    then have eq: "wrap_up angle = wrap_up (angle + 360)"
      by (rule wrap_up_lt)
    have ih: "- 180 \<le> wrap_up (angle + 360)
        \<and> (angle + 360 < - 180 \<longrightarrow> wrap_up (angle + 360) < 180)"
      using 1 True by blast
    show ?thesis
    proof (cases "angle + 360 < - 180")
      case True
      with ih show ?thesis unfolding eq by blast
    next
      case False
      then have "wrap_up (angle + 360) = angle + 360"
        by (intro wrap_up_ge) linarith
      with True False show ?thesis unfolding eq by auto
    qed
  next
    case False
    then have "wrap_up angle = angle"
      by (intro wrap_up_ge) linarith
    with False show ?thesis by linarith
  qed
qed

lemma wrap_angle_bounds: "- 180 \<le> wrap_angle a \<and> wrap_angle a \<le> 180"
proof (cases "- 180 \<le> wrap_down a")
  case True
  then have "wrap_up (wrap_down a) = wrap_down a"
    by (rule wrap_up_ge)
  with True wrap_down_range [of a] show ?thesis
    unfolding wrap_angle_def by linarith
next
  case False
  then have "wrap_down a < - 180"
    by linarith
  with wrap_up_range [of "wrap_down a"] show ?thesis
    unfolding wrap_angle_def by linarith
qed


text \<open>
  C7. The wrap function at the boundary values: \<open>_wrap_angle(180)\<close> is 180,
  \<open>_wrap_angle(181)\<close> is -179, \<open>_wrap_angle(-181)\<close> is 179 and \<open>_wrap_angle(360)\<close>
  is 0.
\<close>

theorem wrap_angle_boundary_values:
  "wrap_angle 180 = 180 \<and> wrap_angle 181 = - 179
   \<and> wrap_angle (- 181) = 179 \<and> wrap_angle 360 = 0"
  by (simp add: wrap_angle_def wrap_down_gt wrap_down_le wrap_up_lt wrap_up_ge)

section \<open>The calibration state\<close>

text \<open>
  C10. \<open>reset_calibration\<close> writes only the calibration fields
  (\<open>calibration_samples\<close>, \<open>calibration_count\<close>, \<open>is_calibrated\<close> and the three gyro
  biases): the angles, the zero reference and the time of the last update are as
  before, so a zero reference set by \<open>zero_view\<close> survives a recalibration.
\<close>

theorem reset_calibration_frame:
  "pitch (reset_calibration t) = pitch t
   \<and> yaw (reset_calibration t) = yaw t
   \<and> roll (reset_calibration t) = roll t
   \<and> zero_pitch (reset_calibration t) = zero_pitch t
   \<and> zero_yaw (reset_calibration t) = zero_yaw t
   \<and> zero_roll (reset_calibration t) = zero_roll t
   \<and> last_time (reset_calibration t) = last_time t
   \<and> reset_calibration t =
       t\<lparr>calibration_samples := calibration_samples (reset_calibration t),
         calibration_count := calibration_count (reset_calibration t),
         is_calibrated := is_calibrated (reset_calibration t),
         gyro_bias_x := gyro_bias_x (reset_calibration t),
         gyro_bias_y := gyro_bias_y (reset_calibration t),
         gyro_bias_z := gyro_bias_z (reset_calibration t)\<rparr>
   \<and> zero_pitch (reset_calibration (zero_view t)) = pitch t
   \<and> zero_yaw (reset_calibration (zero_view t)) = yaw t
   \<and> zero_roll (reset_calibration (zero_view t)) = roll t
   \<and> get_relative_orientation (reset_calibration t) = get_relative_orientation t"
  by (simp add: reset_calibration_def zero_view_def get_relative_orientation_def)

lemma calibration_inv_init: "calibration_inv (init_tracker now)"
  by (simp add: calibration_inv_def init_tracker_def)

lemma calibration_inv_calibrate:
  "calibration_inv t \<Longrightarrow> calibration_inv (snd (calibrate_gyroscope t d))"
  by (auto simp: calibration_inv_def calibrate_gyroscope_def Let_def)

lemma calibration_inv_update: "calibration_inv t \<Longrightarrow> calibration_inv (update t d now)"
  by (simp add: calibration_inv_def update_def Let_def)

lemma calibration_inv_exec: "calibration_inv t \<Longrightarrow> calibration_inv (exec t c)"
proof (cases c)
  case (Calibrate d)
  assume "calibration_inv t"
  with Calibrate show ?thesis by (simp add: calibration_inv_calibrate)
next
  case (Update d now)
  assume "calibration_inv t"
  with Update show ?thesis by (simp add: calibration_inv_update)
next
  case ZeroView
  assume "calibration_inv t"
  with ZeroView show ?thesis by (simp add: calibration_inv_def zero_view_def)
next
  case ResetCalibration
  assume "calibration_inv t"
  with ResetCalibration show ?thesis by (simp add: calibration_inv_def reset_calibration_def)
qed

lemma calibration_inv_foldl: "calibration_inv t \<Longrightarrow> calibration_inv (foldl exec t cs)"
  by (induction cs arbitrary: t) (simp_all add: calibration_inv_exec)

lemma calibration_inv_run: "calibration_inv (run_calls now cs)"
  unfolding run_calls_def by (rule calibration_inv_foldl [OF calibration_inv_init])

text \<open>
  C9. In every state reached from a fresh tracker by calls of
  \<open>calibrate_gyroscope\<close>, \<open>update\<close>, \<open>zero_view\<close> and \<open>reset_calibration\<close>, the
  sample count is at most the target of 500, the tracker is calibrated exactly when
  the count equals the target, the count is the number of stored samples, and the
  progress lies between 0 and 100.
\<close>

theorem calibration_invariant:
  "calibration_count (run_calls now cs) \<le> 500
   \<and> calibration_target (run_calls now cs) = 500
   \<and> is_calibrated (run_calls now cs)
       = (calibration_count (run_calls now cs) = calibration_target (run_calls now cs))
   \<and> calibration_count (run_calls now cs) = length (calibration_samples (run_calls now cs))
   \<and> 0 \<le> get_calibration_progress (run_calls now cs)
   \<and> get_calibration_progress (run_calls now cs) \<le> 100"
proof -
  have inv: "calibration_inv (run_calls now cs)"
    by (rule calibration_inv_run)
  then have le: "calibration_count (run_calls now cs) \<le> 500"
    and tg: "calibration_target (run_calls now cs) = 500"
    by (simp_all add: calibration_inv_def)
  from le have "real (calibration_count (run_calls now cs)) \<le> 500"
    by simp
  then have "0 \<le> get_calibration_progress (run_calls now cs)
      \<and> get_calibration_progress (run_calls now cs) \<le> 100"
    by (simp add: get_calibration_progress_def tg)
  with inv show ?thesis
    by (simp add: calibration_inv_def)
qed

section \<open>The range of the angles\<close>

lemma wrap_up_hits_lower:
  "wrap_up a = - 180 \<Longrightarrow> \<exists>k::nat. a = - 180 - 360 * real k"
proof (induction a rule: wrap_up.induct)
  case (1 angle)
  show ?case
  proof (cases "angle < - 180")
    case True
    then have "wrap_up angle = wrap_up (angle + 360)"
      by (rule wrap_up_lt)
    with 1 True obtain k :: nat where "angle + 360 = - 180 - 360 * real k"
      by auto
    then have "angle = - 180 - 360 * real (Suc k)"
      by simp
    then show ?thesis by blast
  next
    case False
    then have "wrap_up angle = angle"
      by (intro wrap_up_ge) linarith
    with 1(2) have "angle = - 180 - 360 * real (0::nat)"
      by simp
    then show ?thesis by blast
  qed
qed

lemma wrap_angle_hits_lower:
  "- 180 < wrap_angle a \<or> (\<exists>k::nat. a = - 180 - 360 * real k)"
proof (cases "180 < a")
  case True
  with wrap_down_range [of a] have "- 180 < wrap_down a"
    by blast
  then have "wrap_up (wrap_down a) = wrap_down a" "- 180 < wrap_down a"
    by (simp_all add: wrap_up_ge)
  then show ?thesis
    by (simp add: wrap_angle_def)
next
  case False
  then have eq: "wrap_angle a = wrap_up a"
    by (simp add: wrap_angle_def wrap_down_le)
  show ?thesis
  proof (cases "wrap_up a = - 180")
    case True
    then show ?thesis using wrap_up_hits_lower by blast
  next
    case False
    with wrap_up_range [of a] have "- 180 < wrap_up a"
      by linarith
    with eq show ?thesis by simp
  qed
qed

lemma wrap_up_lower_family: "wrap_up (- 180 - 360 * real k) = - 180"
proof (induction k)
  case 0
  show ?case by (simp add: wrap_up_ge)
next
  case (Suc k)
  have lt: "- 180 - 360 * real (Suc k) < - 180"
    by simp
  have step: "- 180 - 360 * real (Suc k) + 360 = - 180 - 360 * real k"
    by simp
  have "wrap_up (- 180 - 360 * real (Suc k)) = wrap_up (- 180 - 360 * real (Suc k) + 360)"
    using lt by (rule wrap_up_lt)
  also have "\<dots> = wrap_up (- 180 - 360 * real k)"
    by (simp only: step)
  also have "\<dots> = - 180"
    by (rule Suc.IH)
  finally show ?case .
qed

lemma wrap_angle_lower_family: "wrap_angle (- 180 - 360 * real k) = - 180"
proof -
  have "- 180 - 360 * real k \<le> 180"
    by simp
  then have "wrap_down (- 180 - 360 * real k) = - 180 - 360 * real k"
    by (rule wrap_down_le)
  then show ?thesis
    by (simp only: wrap_angle_def wrap_up_lower_family)
qed

lemma wrap_angle_lower_iff:
  "(wrap_angle a = - 180) = (\<exists>k::nat. a = - 180 - 360 * real k)"
proof
  assume "wrap_angle a = - 180"
  with wrap_angle_hits_lower [of a] show "\<exists>k::nat. a = - 180 - 360 * real k"
    by simp
next
  assume "\<exists>k::nat. a = - 180 - 360 * real k"
  then obtain k :: nat where "a = - 180 - 360 * real k" ..
  then show "wrap_angle a = - 180"
    by (simp only: wrap_angle_lower_family)
qed

lemma angles_in_range_init: "angles_in_range (init_tracker now)"
  by (simp add: angles_in_range_def init_tracker_def)

lemma angles_in_range_update: "angles_in_range t \<Longrightarrow> angles_in_range (update t d now)"
  by (simp add: angles_in_range_def update_def Let_def wrap_angle_bounds)

lemma angles_in_range_exec: "angles_in_range t \<Longrightarrow> angles_in_range (exec t c)"
proof (cases c)
  case (Calibrate d)
  assume "angles_in_range t"
  with Calibrate show ?thesis
    by (simp add: angles_in_range_def calibrate_gyroscope_def Let_def)
next
  case (Update d now)
  assume "angles_in_range t"
  with Update show ?thesis by (simp add: angles_in_range_update)
next
  case ZeroView
  assume "angles_in_range t"
  with ZeroView show ?thesis by (simp add: angles_in_range_def zero_view_def)
next
  case ResetCalibration
  assume "angles_in_range t"
  with ResetCalibration show ?thesis by (simp add: angles_in_range_def reset_calibration_def)
qed

lemma angles_in_range_foldl: "angles_in_range t \<Longrightarrow> angles_in_range (foldl exec t cs)"
  by (induction cs arbitrary: t) (simp_all add: angles_in_range_exec)

text \<open>
  C6, as the code has it. The angles are taken as reals: a float that is NaN is
  returned by \<open>_wrap_angle\<close> as it is, and for a float of about \<open>2^62\<close> or more in
  magnitude adding or subtracting 360 no longer changes it, so that the loop does
  not return; both lie outside what is stated here. For every real \<open>a\<close>,
  \<open>_wrap_angle(a)\<close> lies in the closed interval from -180 to 180, and it returns
  the lower end -180 exactly when \<open>a\<close> is \<open>-180 - 360 k\<close> for some \<open>k = 0, 1, 2, ...\<close>:
  only for these inputs, and for each of them. Hence pitch, yaw and roll of every
  state reached from a fresh tracker by calls with real-valued samples and clock
  readings, and every component of \<open>get_relative_orientation\<close> of a tracker with
  real-valued fields, lie in that closed interval.
\<close>

theorem wrap_angle_closed_range:
  "- 180 \<le> wrap_angle a \<and> wrap_angle a \<le> 180
   \<and> (wrap_angle a = - 180) = (\<exists>k::nat. a = - 180 - 360 * real k)
   \<and> wrap_angle (- 180 - 360 * real n) = - 180
   \<and> - 180 \<le> pitch (run_calls now cs) \<and> pitch (run_calls now cs) \<le> 180
   \<and> - 180 \<le> yaw (run_calls now cs) \<and> yaw (run_calls now cs) \<le> 180
   \<and> - 180 \<le> roll (run_calls now cs) \<and> roll (run_calls now cs) \<le> 180
   \<and> - 180 \<le> rel_pitch (get_relative_orientation t)
   \<and> rel_pitch (get_relative_orientation t) \<le> 180
   \<and> - 180 \<le> rel_yaw (get_relative_orientation t)
   \<and> rel_yaw (get_relative_orientation t) \<le> 180
   \<and> - 180 \<le> rel_roll (get_relative_orientation t)
   \<and> rel_roll (get_relative_orientation t) \<le> 180"
proof -
  have "angles_in_range (run_calls now cs)"
    unfolding run_calls_def by (rule angles_in_range_foldl [OF angles_in_range_init])
  moreover have "(wrap_angle a = - 180) = (\<exists>k::nat. a = - 180 - 360 * real k)"
    by (rule wrap_angle_lower_iff)
  ultimately show ?thesis
    by (simp add: angles_in_range_def get_relative_orientation_def wrap_angle_bounds
        wrap_angle_lower_family)
qed

text \<open>
  C6, as stated, fails at -180: neither loop of \<open>_wrap_angle\<close> runs there, and -180
  itself is returned, which is not above -180.
\<close>

theorem wrap_angle_lower_bound_attained:
  "wrap_angle (- 180) = - 180 \<and> \<not> - 180 < wrap_angle (- 180)"
  by (simp add: wrap_angle_def wrap_down_le wrap_up_ge)

section \<open>Calibration\<close>

lemma calibrate_all_Nil: "calibrate_all t [] = t"
  by (simp add: calibrate_all_def)

lemma calibrate_all_Cons:
  "calibrate_all t (d # ds) = calibrate_all (snd (calibrate_gyroscope t d)) ds"
  by (simp add: calibrate_all_def)

lemma calibrate_all_snoc:
  "calibrate_all t (ds @ [d]) = snd (calibrate_gyroscope (calibrate_all t ds) d)"
  by (simp add: calibrate_all_def)

lemma calibrate_below_target:
  assumes "\<not> is_calibrated t" and "calibration_count t + 1 < calibration_target t"
  shows "calibrate_gyroscope t d =
    (False, t\<lparr>calibration_samples := calibration_samples t @ [(gx d, gy d, gz d)],
              calibration_count := calibration_count t + 1\<rparr>)"
  using assms by (simp add: calibrate_gyroscope_def Let_def)

lemma calibrate_all_partial:
  "\<not> is_calibrated t \<Longrightarrow> calibration_count t + length ds < calibration_target t \<Longrightarrow>
   calibrate_all t ds =
     t\<lparr>calibration_samples := calibration_samples t @ map (\<lambda>d. (gx d, gy d, gz d)) ds,
       calibration_count := calibration_count t + length ds\<rparr>"
proof (induction ds arbitrary: t)
  case Nil
  then show ?case by (simp add: calibrate_all_Nil)
next
  case (Cons d ds)
  let ?t1 = "t\<lparr>calibration_samples := calibration_samples t @ [(gx d, gy d, gz d)],
               calibration_count := calibration_count t + 1\<rparr>"
  from Cons.prems have step: "snd (calibrate_gyroscope t d) = ?t1"
    by (simp add: calibrate_below_target)
  have "calibrate_all ?t1 ds =
      ?t1\<lparr>calibration_samples := calibration_samples ?t1 @ map (\<lambda>d. (gx d, gy d, gz d)) ds,
          calibration_count := calibration_count ?t1 + length ds\<rparr>"
    using Cons.prems by (intro Cons.IH) simp_all
  then show ?case
    by (simp add: calibrate_all_Cons step)
qed

lemma calibrate_reaching_target:
  assumes "\<not> is_calibrated t" and "calibration_count t + 1 = calibration_target t"
  shows "calibrate_gyroscope t d =
    (True,
     t\<lparr>calibration_samples := calibration_samples t @ [(gx d, gy d, gz d)],
       calibration_count := calibration_count t + 1,
       gyro_bias_x := sum_list (map fst (calibration_samples t @ [(gx d, gy d, gz d)]))
                        / real (length (calibration_samples t) + 1),
       gyro_bias_y := sum_list (map (fst \<circ> snd) (calibration_samples t @ [(gx d, gy d, gz d)]))
                        / real (length (calibration_samples t) + 1),
       gyro_bias_z := sum_list (map (snd \<circ> snd) (calibration_samples t @ [(gx d, gy d, gz d)]))
                        / real (length (calibration_samples t) + 1),
       is_calibrated := True, pitch := 0, yaw := 0, roll := 0, last_time := 0\<rparr>)"
  using assms by (simp add: calibrate_gyroscope_def Let_def)


text \<open>
  C2. From a tracker that is not calibrated and holds no samples (a fresh one, or one
  after \<open>reset_calibration\<close>), 500 samples through \<open>calibrate_gyroscope\<close> make
  \<open>is_calibrated\<close> true on the 500th call and not before; the biases are untouched
  until then and are then the arithmetic means of the 500 values of each axis; pitch,
  yaw and roll are 0 and the time of the last update is the sentinel 0; every later
  call returns \<open>True\<close> and leaves the state as it is.
\<close>

theorem calibration_completes_at_target:
  assumes fresh: "\<not> is_calibrated t" "calibration_count t = 0"
      "calibration_samples t = []" "calibration_target t = 500"
    and len: "length ds = 500"
  shows "(\<forall>k<500. \<not> is_calibrated (calibrate_all t (take k ds))
            \<and> gyro_bias_x (calibrate_all t (take k ds)) = gyro_bias_x t
            \<and> gyro_bias_y (calibrate_all t (take k ds)) = gyro_bias_y t
            \<and> gyro_bias_z (calibrate_all t (take k ds)) = gyro_bias_z t
            \<and> fst (calibrate_gyroscope (calibrate_all t (take k ds)) (ds ! k)) = (k = 499))
         \<and> is_calibrated (calibrate_all t ds)
         \<and> gyro_bias_x (calibrate_all t ds) = sum_list (map gx ds) / 500
         \<and> gyro_bias_y (calibrate_all t ds) = sum_list (map gy ds) / 500
         \<and> gyro_bias_z (calibrate_all t ds) = sum_list (map gz ds) / 500
         \<and> pitch (calibrate_all t ds) = 0
         \<and> yaw (calibrate_all t ds) = 0
         \<and> roll (calibrate_all t ds) = 0
         \<and> last_time (calibrate_all t ds) = 0
         \<and> (\<forall>d. calibrate_gyroscope (calibrate_all t ds) d = (True, calibrate_all t ds))"
proof -
  let ?trip = "\<lambda>d::real IMUData. (gx d, gy d, gz d)"
  have partial: "calibrate_all t (take k ds) =
      t\<lparr>calibration_samples := map ?trip (take k ds), calibration_count := k\<rparr>"
    if "k < 500" for k
  proof -
    from that len have "length (take k ds) = k"
      by simp
    with that fresh show ?thesis
      using calibrate_all_partial [of t "take k ds"] by simp
  qed
  have before: "\<not> is_calibrated (calibrate_all t (take k ds))
      \<and> gyro_bias_x (calibrate_all t (take k ds)) = gyro_bias_x t
      \<and> gyro_bias_y (calibrate_all t (take k ds)) = gyro_bias_y t
      \<and> gyro_bias_z (calibrate_all t (take k ds)) = gyro_bias_z t
      \<and> fst (calibrate_gyroscope (calibrate_all t (take k ds)) (ds ! k)) = (k = 499)"
    if "k < 500" for k
  proof (cases "k = 499")
    case True
    with fresh show ?thesis
      by (simp add: partial calibrate_reaching_target)
  next
    case False
    with that have "k + 1 < 500"
      by simp
    with that fresh False show ?thesis
      by (simp add: partial calibrate_below_target)
  qed
  have split: "ds = take 499 ds @ [ds ! 499]"
    using len take_Suc_conv_app_nth [of 499 ds] by simp
  have sums: "map ?trip (take 499 ds) @ [?trip (ds ! 499)] = map ?trip ds"
    using arg_cong [OF split, of "map ?trip"] by simp
  have "calibrate_all t ds = snd (calibrate_gyroscope (calibrate_all t (take 499 ds)) (ds ! 499))"
    using calibrate_all_snoc [of t "take 499 ds" "ds ! 499"] split by simp
  then have final: "calibrate_all t ds =
      t\<lparr>calibration_samples := map ?trip ds,
        calibration_count := 500,
        gyro_bias_x := sum_list (map gx ds) / 500,
        gyro_bias_y := sum_list (map gy ds) / 500,
        gyro_bias_z := sum_list (map gz ds) / 500,
        is_calibrated := True, pitch := 0, yaw := 0, roll := 0, last_time := 0\<rparr>"
    using fresh len
    by (simp add: partial calibrate_reaching_target sums comp_def)
  have after: "calibrate_gyroscope (calibrate_all t ds) d = (True, calibrate_all t ds)" for d
    by (simp add: final calibrate_gyroscope_def)
  from before after show ?thesis
    by (simp add: final)
qed


text \<open>The same at a fresh tracker and 500 samples with \<open>gx = 2\<close>: the bias of the
  x axis is 2.\<close>

theorem calibration_completes_witness:
  "\<not> is_calibrated (init_tracker 7)
   \<and> calibration_count (init_tracker 7) = 0
   \<and> calibration_samples (init_tracker 7) = []
   \<and> calibration_target (init_tracker 7) = 500
   \<and> length (replicate 500 \<lparr>gx = 2, gy = 0, gz = 0, ax = 0, ay = 0, az = 1 :: real\<rparr>) = 500
   \<and> \<not> is_calibrated (calibrate_all (init_tracker 7)
         (take 499 (replicate 500 \<lparr>gx = 2, gy = 0, gz = 0, ax = 0, ay = 0, az = 1\<rparr>)))
   \<and> is_calibrated (calibrate_all (init_tracker 7)
         (replicate 500 \<lparr>gx = 2, gy = 0, gz = 0, ax = 0, ay = 0, az = 1\<rparr>))
   \<and> gyro_bias_x (calibrate_all (init_tracker 7)
         (replicate 500 \<lparr>gx = 2, gy = 0, gz = 0, ax = 0, ay = 0, az = 1\<rparr>)) = 2"
proof -
  let ?t = "init_tracker 7"
  let ?ds = "replicate 500 \<lparr>gx = 2, gy = 0, gz = 0, ax = 0, ay = 0, az = 1 :: real\<rparr>"
  have h: "\<not> is_calibrated ?t" "calibration_count ?t = 0"
      "calibration_samples ?t = []" "calibration_target ?t = 500" "length ?ds = 500"
    by (simp_all add: init_tracker_def)
  note th = calibration_completes_at_target [OF h]
  from th have "\<forall>k<500. \<not> is_calibrated (calibrate_all ?t (take k ?ds))"
    by blast
  then have a: "\<not> is_calibrated (calibrate_all ?t (take 499 ?ds))"
    by simp
  from th have b: "is_calibrated (calibrate_all ?t ?ds)"
    by blast
  from th have "gyro_bias_x (calibrate_all ?t ?ds) = sum_list (map gx ?ds) / 500"
    by blast
  then have c: "gyro_bias_x (calibrate_all ?t ?ds) = 2"
    by (simp add: sum_list_replicate)
  from h a b c show ?thesis
    by blast
qed

section \<open>A sensor at rest\<close>




















section \<open>The frame decoder: hexadecimal text and float32 patterns\<close>

lemma hex_digit_cases:
  assumes "n < 16"
  shows "hexval (hex_digit n) = Some n \<and> \<not> is_space (hex_digit n)"
proof -
  have "\<forall>k \<in> set [0..<16]. hexval (hex_digit k) = Some k \<and> \<not> is_space (hex_digit k)"
    by code_simp
  moreover from assms have "n \<in> set [0..<16]"
    by simp
  ultimately show ?thesis
    by blast
qed

lemma byte_digits: "unat (b :: byte) div 16 < 16 \<and> unat b mod 16 < 16"
proof -
  have "unat b < 256"
    using unsigned_less [of b] by simp
  then show ?thesis by simp
qed

lemma byte_of_digits: "(of_nat (16 * (unat (b :: byte) div 16) + unat b mod 16) :: byte) = b"
  by simp

lemma fromhex_bytes_hex: "fromhex (bytes_hex bs) = Some bs"
proof (induction bs)
  case Nil
  show ?case by (simp add: bytes_hex_def)
next
  case (Cons b bs)
  have split: "bytes_hex (b # bs)
      = hex_digit (unat b div 16) # hex_digit (unat b mod 16) # bytes_hex bs"
    by (simp add: bytes_hex_def)
  show ?case
    using Cons.IH hex_digit_cases [of "unat b div 16"] hex_digit_cases [of "unat b mod 16"]
      byte_digits [of b] byte_of_digits [of b]
    by (simp add: split)
qed

lemma bytes_of_word:
  "ucast (ucast w :: byte) OR push_bit 8 (ucast (ucast (drop_bit 8 w) :: byte))
      OR push_bit 16 (ucast (ucast (drop_bit 16 w) :: byte))
      OR push_bit 24 (ucast (ucast (drop_bit 24 w) :: byte)) = (w :: f32)"
  (is "?l = w")
proof (rule bit_word_eqI)
  fix n :: nat
  assume "n < LENGTH(32)"
  then consider "n < 8" | "8 \<le> n" "n < 16" | "16 \<le> n" "n < 24" | "24 \<le> n" "n < 32"
    by fastforce
  then show "bit ?l n = bit w n"
  proof cases
    case 1
    then show ?thesis by (auto simp add: bit_simps)
  next
    case 2
    then show ?thesis by (auto simp add: bit_simps)
  next
    case 3
    then show ?thesis by (auto simp add: bit_simps)
  next
    case 4
    then show ?thesis by (auto simp add: bit_simps)
  qed
qed

lemma unpack_pack_f32: "unpack_f32 (pack_f32 w) = Some w"
  by (simp add: unpack_f32_def pack_f32_def bytes_of_word)

lemma word_of_bytes:
  fixes b0 b1 b2 b3 :: byte
  defines "w \<equiv> (ucast b0 OR push_bit 8 (ucast b1) OR push_bit 16 (ucast b2)
      OR push_bit 24 (ucast b3) :: f32)"
  shows "(ucast w :: byte) = b0" "(ucast (drop_bit 8 w) :: byte) = b1"
    "(ucast (drop_bit 16 w) :: byte) = b2" "(ucast (drop_bit 24 w) :: byte) = b3"
proof -
  show "(ucast w :: byte) = b0"
    unfolding w_def by (rule bit_word_eqI) (auto simp add: bit_simps dest: bit_imp_le_length)
  show "(ucast (drop_bit 8 w) :: byte) = b1"
    unfolding w_def by (rule bit_word_eqI) (auto simp add: bit_simps dest: bit_imp_le_length)
  show "(ucast (drop_bit 16 w) :: byte) = b2"
    unfolding w_def by (rule bit_word_eqI) (auto simp add: bit_simps dest: bit_imp_le_length)
  show "(ucast (drop_bit 24 w) :: byte) = b3"
    unfolding w_def by (rule bit_word_eqI) (auto simp add: bit_simps dest: bit_imp_le_length)
qed

lemma pack_unpack_f32:
  "unpack_f32 bs = Some w \<Longrightarrow> pack_f32 w = bs"
proof -
  assume u: "unpack_f32 bs = Some w"
  then obtain b0 b1 b2 b3 where bs: "bs = [b0, b1, b2, b3]"
    by (auto simp add: unpack_f32_def split: list.splits)
  with u have w: "w = ucast b0 OR push_bit 8 (ucast b1) OR push_bit 16 (ucast b2)
      OR push_bit 24 (ucast b3)"
    by (simp add: unpack_f32_def)
  show ?thesis
    unfolding pack_f32_def bs w by (simp only: word_of_bytes)
qed


lemma length_bytes_hex: "length (bytes_hex bs) = 2 * length bs"
  by (induction bs) (simp_all add: bytes_hex_def)

lemma bytes_hex_append: "bytes_hex (p @ q) = bytes_hex p @ bytes_hex q"
  by (simp add: bytes_hex_def)

lemma unpack_chunk_hex: "unpack_chunk (bytes_hex q) = unpack_f32 q"
  by (simp add: unpack_chunk_def fromhex_bytes_hex)

lemma chunks8_append:
  assumes "length c = 8"
  shows "chunks8 (c @ r) = c # chunks8 r"
proof -
  from assms obtain x c' where c: "c = x # c'" and l: "length c' = 7"
    by (cases c) auto
  then show ?thesis by simp
qed

lemma length_pack_f32: "length (pack_f32 w) = 4"
  by (simp add: pack_f32_def)

lemma length_pack_window: "length (pack_window v) = 24"
  by (simp add: pack_window_def length_pack_f32)

lemma chunks8_packed:
  "chunks8 (bytes_hex (pack_f32 w) @ r) = bytes_hex (pack_f32 w) # chunks8 r"
  by (rule chunks8_append) (simp add: length_bytes_hex length_pack_f32)

lemma decode_pack_window: "decode_imu_data (bytes_hex (pack_window v @ r)) = Some v"
proof -
  have len: "\<not> length (bytes_hex (pack_window v @ r)) < 48"
    by (simp add: length_bytes_hex length_pack_window)
  have ch: "chunks8 (bytes_hex (pack_window v @ r))
      = bytes_hex (pack_f32 (ax v)) # bytes_hex (pack_f32 (ay v)) # bytes_hex (pack_f32 (az v))
        # bytes_hex (pack_f32 (gz v)) # bytes_hex (pack_f32 (gy v)) # bytes_hex (pack_f32 (gx v))
        # chunks8 (bytes_hex r)"
    by (simp only: pack_window_def bytes_hex_append append_assoc chunks8_packed)
  show ?thesis
    unfolding decode_imu_data_def
    by (simp only: len ch Let_def) (simp add: unpack_chunk_hex unpack_pack_f32)
qed

lemma four_bytes_packed:
  assumes "length q = 4"
  shows "\<exists>w. q = pack_f32 w"
proof -
  from assms obtain b0 b1 b2 b3 where q: "q = [b0, b1, b2, b3]"
    by (auto simp add: length_Suc_conv numeral_eq_Suc)
  then have "unpack_f32 q = Some (ucast b0 OR push_bit 8 (ucast b1) OR push_bit 16 (ucast b2)
      OR push_bit 24 (ucast b3))"
    by (simp add: unpack_f32_def)
  then show ?thesis
    using pack_unpack_f32 by metis
qed

lemma window_is_packed:
  assumes "24 \<le> length w"
  shows "\<exists>v. take 24 w = pack_window v"
proof -
  define q where "q i = take 4 (drop i w)" for i
  have lq: "length (q 0) = 4" "length (q 4) = 4" "length (q 8) = 4" "length (q 12) = 4"
    "length (q 16) = 4" "length (q 20) = 4"
    using assms by (simp_all add: q_def)
  have split: "take 24 w = q 0 @ q 4 @ q 8 @ q 12 @ q 16 @ q 20"
    using assms
    by (simp add: q_def list_eq_iff_nth_eq nth_append)
  from lq obtain v0 v1 v2 v3 v4 v5 where
    "q 0 = pack_f32 v0" "q 4 = pack_f32 v1" "q 8 = pack_f32 v2" "q 12 = pack_f32 v3"
    "q 16 = pack_f32 v4" "q 20 = pack_f32 v5"
    using four_bytes_packed by metis
  then have "take 24 w = pack_window \<lparr>gx = v5, gy = v4, gz = v3, ax = v0, ay = v1, az = v2\<rparr>"
    by (simp add: split pack_window_def)
  then show ?thesis ..
qed

lemma decode_window_iff:
  "(decode_imu_data (bytes_hex w) = Some s) = (24 \<le> length w \<and> take 24 w = pack_window s)"
proof (cases "24 \<le> length w")
  case True
  then obtain v where v: "take 24 w = pack_window v"
    using window_is_packed by blast
  have "decode_imu_data (bytes_hex (take 24 w @ drop 24 w)) = Some v"
    unfolding v by (rule decode_pack_window)
  then have dec: "decode_imu_data (bytes_hex w) = Some v"
    by simp
  show ?thesis
  proof
    assume "decode_imu_data (bytes_hex w) = Some s"
    with dec have "v = s" by simp
    with v True show "24 \<le> length w \<and> take 24 w = pack_window s" by simp
  next
    assume "24 \<le> length w \<and> take 24 w = pack_window s"
    then have "decode_imu_data (bytes_hex (take 24 w @ drop 24 w)) = Some s"
      by (simp only: decode_pack_window)
    then show "decode_imu_data (bytes_hex w) = Some s" by simp
  qed
next
  case False
  then have "length (bytes_hex w) < 48"
    by (simp add: length_bytes_hex)
  then have "decode_imu_data (bytes_hex w) = None"
    by (simp add: decode_imu_data_def)
  with False show ?thesis by simp
qed

section \<open>The frame decoder: which frames decode\<close>

lemma strip_message_eq:
  assumes "64 \<le> length message"
  shows "strip_message message = drop 14 (take (length message - 50) message)"
    and "length (strip_message message) = length message - 64"
proof -
  have "nat (int (length message) - 50) = length message - 50"
    by arith
  then show "strip_message message = drop 14 (take (length message - 50) message)"
    using assms
    by (simp add: strip_message_def py_slice_def py_index_def HEADER_def FOOTER_def)
  then show "length (strip_message message) = length message - 64"
    using assms by simp
qed

lemma imu_window_eq:
  assumes "46 \<le> length data"
  shows "imu_window data = drop 20 (take (length data - 26) data)"
    and "length (imu_window data) = length data - 46"
proof -
  have "nat (int (length data) - 26) = length data - 26"
    by arith
  then show "imu_window data = drop 20 (take (length data - 26) data)"
    using assms
    by (simp add: imu_window_def py_slice_def py_index_def DATA_START_OFFSET_def
        DATA_END_OFFSET_def)
  then show "length (imu_window data) = length data - 46"
    using assms by simp
qed

lemma process_message_iff:
  "(process_message message = Some s)
   = (134 \<le> length message \<and> endswith (strip_message message) SENSOR_MSG
      \<and> take 24 (imu_window (strip_message message)) = pack_window s)"
proof (cases "length message < 64")
  case True
  then have "process_message message = None"
    by (simp add: process_message_def HEADER_def FOOTER_def)
  with True show ?thesis by simp
next
  case long: False
  then have ls: "length (strip_message message) = length message - 64"
    by (simp add: strip_message_eq)
  show ?thesis
  proof (cases "endswith (strip_message message) SENSOR_MSG")
    case False
    then have "process_message message = None"
      by (simp add: process_message_def Let_def)
    with False show ?thesis by simp
  next
    case ends: True
    show ?thesis
    proof (cases "length message < 110")
      case True
      with long ls have "int (length (strip_message message)) < 46"
        by simp
      then have "process_message message = None"
        by (simp add: process_message_def Let_def DATA_START_OFFSET_def DATA_END_OFFSET_def)
      with True show ?thesis by simp
    next
      case False
      with ls have l46: "46 \<le> length (strip_message message)"
        by simp
      then have lw: "length (imu_window (strip_message message)) = length message - 110"
        using ls by (simp add: imu_window_eq)
      from long l46 ends have "process_message message
          = decode_imu_data (bytes_hex (imu_window (strip_message message)))"
        by (simp add: process_message_def Let_def DATA_START_OFFSET_def DATA_END_OFFSET_def
            HEADER_def FOOTER_def)
      then show ?thesis
        using False ends lw by (simp add: decode_window_iff) linarith
    qed
  qed
qed

lemma drop_take_middle:
  "drop (length p) (take (length (p @ d @ q) - length q) (p @ d @ q)) = d"
  by simp

lemma strip_sensor_frame:
  assumes "length session = 8" and "length trail = 31"
  shows "strip_message (sensor_frame session lead v mid trail)
      = lead @ pack_window v @ mid @ SENSOR_MSG"
proof -
  define p where "p = HEADER @ session"
  define q where "q = trail @ FOOTER"
  define d where "d = lead @ pack_window v @ mid @ SENSOR_MSG"
  have lp: "length p = 14" and lq: "length q = 50"
    using assms by (simp_all add: p_def q_def HEADER_def FOOTER_def)
  have fr: "sensor_frame session lead v mid trail = p @ d @ q"
    by (simp add: sensor_frame_def p_def q_def d_def)
  have "64 \<le> length (p @ d @ q)"
    using lp lq by simp
  then have "strip_message (p @ d @ q) = drop 14 (take (length (p @ d @ q) - 50) (p @ d @ q))"
    by (rule strip_message_eq)
  also have "\<dots> = d"
    using drop_take_middle [of p d q] by (simp only: lp lq)
  finally show ?thesis
    by (simp only: fr d_def)
qed

lemma window_sensor_frame:
  assumes "length lead = 20" and "20 \<le> length mid"
  shows "imu_window (lead @ pack_window v @ mid @ SENSOR_MSG)
      = pack_window v @ take (length mid - 20) mid"
proof -
  define d where "d = pack_window v @ take (length mid - 20) mid"
  define q where "q = drop (length mid - 20) mid @ SENSOR_MSG"
  have lq: "length q = 26"
    using assms by (simp add: q_def SENSOR_MSG_def)
  have da: "lead @ pack_window v @ mid @ SENSOR_MSG = lead @ d @ q"
    by (simp add: d_def q_def)
  have "46 \<le> length (lead @ d @ q)"
    using assms lq by simp
  then have "imu_window (lead @ d @ q)
      = drop 20 (take (length (lead @ d @ q) - 26) (lead @ d @ q))"
    by (rule imu_window_eq)
  also have "\<dots> = d"
    using drop_take_middle [of lead d q] by (simp only: assms lq)
  finally show ?thesis
    by (simp only: da d_def)
qed

lemma process_sensor_frame:
  assumes "length session = 8" and "length lead = 20" and "20 \<le> length mid"
    and "length trail = 31"
  shows "process_message (sensor_frame session lead v mid trail) = Some v"
proof -
  have "134 \<le> length (sensor_frame session lead v mid trail)"
    using assms
    by (simp add: sensor_frame_def HEADER_def FOOTER_def SENSOR_MSG_def length_pack_window)
  moreover have "endswith (lead @ pack_window v @ mid @ SENSOR_MSG) SENSOR_MSG"
    by (simp add: endswith_def)
  moreover have "take 24 (pack_window v @ take (length mid - 20) mid) = pack_window v"
    by (simp add: length_pack_window)
  ultimately show ?thesis
    using assms
    by (simp only: process_message_iff strip_sensor_frame window_sensor_frame simp_thms)
qed

lemma process_message_decodes_iff:
  "(process_message message \<noteq> None)
   = (134 \<le> length message \<and> endswith (strip_message message) SENSOR_MSG)"
proof
  assume "process_message message \<noteq> None"
  then obtain s where "process_message message = Some s"
    by blast
  then show "134 \<le> length message \<and> endswith (strip_message message) SENSOR_MSG"
    by (simp add: process_message_iff)
next
  assume a: "134 \<le> length message \<and> endswith (strip_message message) SENSOR_MSG"
  then have long: "134 \<le> length message"
    by simp
  then have "length (strip_message message) = length message - 64"
    by (simp add: strip_message_eq)
  with long have "46 \<le> length (strip_message message)"
    and "24 \<le> length (strip_message message) - 46"
    by linarith+
  then have "24 \<le> length (imu_window (strip_message message))"
    by (simp add: imu_window_eq)
  then obtain v where "take 24 (imu_window (strip_message message)) = pack_window v"
    using window_is_packed by blast
  with a have "process_message message = Some v"
    by (simp add: process_message_iff)
  then show "process_message message \<noteq> None"
    by simp
qed

lemma imu_window_placements:
  assumes "134 \<le> length message"
  shows "imu_window (strip_message message)
      = drop 20 (take (length (strip_message message) - 26) (strip_message message))"
    and "length (imu_window (strip_message message)) = length (strip_message message) - 46"
    and "length (strip_message message) = length message - 64"
    and "take 24 (imu_window (strip_message message)) = window_from_start (strip_message message)"
    and "drop (length (imu_window (strip_message message)) - 24)
          (imu_window (strip_message message)) = window_from_end (strip_message message)"
proof -
  define data where "data = strip_message message"
  have ld: "length data = length message - 64"
    using assms by (simp add: data_def strip_message_eq)
  with assms have l70: "70 \<le> length data"
    by simp
  then have w: "imu_window data = drop 20 (take (length data - 26) data)"
    and lw: "length (imu_window data) = length data - 46"
    by (simp_all add: imu_window_eq)
  have n50: "nat (int (length data) - 50) = length data - 50"
    and n26: "nat (int (length data) - 26) = length data - 26"
    by arith+
  have s: "take 24 (imu_window data) = window_from_start data"
    using l70
    by (simp add: w window_from_start_def py_slice_def py_index_def take_drop min_def)
  have e: "drop (length (imu_window data) - 24) (imu_window data) = window_from_end data"
    using l70
    by (simp add: lw) (simp add: w window_from_end_def py_slice_def py_index_def n50 n26)
  show "imu_window (strip_message message)
      = drop 20 (take (length (strip_message message) - 26) (strip_message message))"
    using w by (simp only: data_def)
  show "length (imu_window (strip_message message)) = length (strip_message message) - 46"
    using lw by (simp only: data_def)
  show "length (strip_message message) = length message - 64"
    using ld by (simp only: data_def)
  show "take 24 (imu_window (strip_message message)) = window_from_start (strip_message message)"
    using s by (simp only: data_def)
  show "drop (length (imu_window (strip_message message)) - 24)
          (imu_window (strip_message message)) = window_from_end (strip_message message)"
    using e by (simp only: data_def)
qed

text \<open>
  C1. A frame built as the wire format says, from any six float32 values (finite
  or not): start marker, 8 session-id bytes, a payload of 20 bytes, the 24 bytes of
  the six values in the order \<open>ax, ay, az, gz, gy, gx\<close>, at least 20 further bytes
  (exactly 20 when the window ends 26 bytes before the end of the payload) and the
  sensor-message marker, then 31 trailing bytes and the end marker.
  \<open>process_message\<close> returns the sample whose six fields are the original values,
  bit for bit.
\<close>

theorem frame_round_trip:
  assumes "length session = 8" and "length lead = 20" and "20 \<le> length mid"
    and "length trail = 31"
  shows "process_message (sensor_frame session lead v mid trail) = Some v"
  using assms by (rule process_sensor_frame)

text \<open>The round trip of C1 on the frame of a sensor at rest.\<close>

theorem frame_round_trip_witness:
  "process_message (rest_frame (replicate 20 9))
     = Some \<lparr>gx = 0, gy = 0, gz = 0, ax = 0, ay = 0, az = 0xBF800000\<rparr>"
  unfolding rest_frame_def
  using frame_round_trip [of "[1, 2, 3, 4, 5, 6, 7, 8]" "replicate 20 0" "replicate 20 9"
      "replicate 31 0" "\<lparr>gx = 0, gy = 0, gz = 0, ax = 0, ay = 0, az = 0xBF800000\<rparr>"]
  by simp

text \<open>
  C4, as the code has it. Whether \<open>process_message\<close> returns a sample depends on the
  structure of the frame alone: it does exactly when the frame has at least 134
  bytes and its stripped payload ends with the sensor-message marker; and the sample
  returned is the one whose six bit patterns are the first 24 bytes of the window,
  whatever they are. No test of finiteness is made, so that a window holding an
  infinity or a NaN yields a sample with that value.
\<close>

theorem decoding_is_structural:
  "(process_message message \<noteq> None)
     = (134 \<le> length message \<and> endswith (strip_message message) SENSOR_MSG)
   \<and> (process_message message = Some s)
     = (134 \<le> length message \<and> endswith (strip_message message) SENSOR_MSG
        \<and> take 24 (imu_window (strip_message message)) = pack_window s)"
  using process_message_decodes_iff [of message] process_message_iff [of message s]
  by (simp only: simp_thms)

text \<open>
  C4, as stated, fails: the frame \<open>inf_frame\<close>, whose first window field is the
  float32 \<open>+infinity\<close>, is decoded to a sample, and its \<open>ax\<close> is that infinity.
\<close>

theorem nonfinite_value_is_decoded:
  "process_message inf_frame
     = Some \<lparr>gx = 0, gy = 0, gz = 0, ax = 0x7F800000, ay = 0, az = 0xBF800000\<rparr>
   \<and> f32_nonfinite 0x7F800000"
  by code_simp

text \<open>
  C5, as the code has it. For every frame that \<open>process_message\<close> decodes the window
  \<open>data[20:-26]\<close> starts at offset 20 of the stripped payload and ends 26 bytes before
  its end; it is 46 bytes shorter than the payload, at least 24 bytes long, and
  exactly 24 bytes long only for a frame of 134 bytes (a payload of 70). The sample
  is read from its first 24 bytes, which are the 24 bytes at offset 20; its last 24
  bytes are those that end 26 bytes before the end of the payload. For a frame of
  134 bytes the window and the two placements are the same 24 bytes.
\<close>

theorem window_placement:
  assumes "process_message message = Some s"
  shows "imu_window (strip_message message)
      = drop 20 (take (length (strip_message message) - 26) (strip_message message))
    \<and> length (imu_window (strip_message message)) = length (strip_message message) - 46
    \<and> 24 \<le> length (imu_window (strip_message message))
    \<and> (length (imu_window (strip_message message)) = 24) = (length message = 134)
    \<and> take 24 (imu_window (strip_message message)) = window_from_start (strip_message message)
    \<and> drop (length (imu_window (strip_message message)) - 24)
          (imu_window (strip_message message)) = window_from_end (strip_message message)
    \<and> window_from_start (strip_message message) = pack_window s
    \<and> (length message = 134
        \<longrightarrow> imu_window (strip_message message) = window_from_start (strip_message message)
          \<and> window_from_start (strip_message message)
              = window_from_end (strip_message message))"
proof -
  from assms have long: "134 \<le> length message"
    and pk: "take 24 (imu_window (strip_message message)) = pack_window s"
    by (simp_all add: process_message_iff)
  note wp = imu_window_placements [OF long]
  have lw: "length (imu_window (strip_message message)) = length message - 110"
    using long by (simp add: wp(2) wp(3))
  have eq: "length message = 134
      \<longrightarrow> imu_window (strip_message message) = window_from_start (strip_message message)
        \<and> window_from_start (strip_message message) = window_from_end (strip_message message)"
  proof
    assume "length message = 134"
    with lw have l24: "length (imu_window (strip_message message)) = 24"
      by simp
    then have "take 24 (imu_window (strip_message message)) = imu_window (strip_message message)"
      and "drop (length (imu_window (strip_message message)) - 24)
          (imu_window (strip_message message)) = imu_window (strip_message message)"
      by simp_all
    then show "imu_window (strip_message message) = window_from_start (strip_message message)
        \<and> window_from_start (strip_message message) = window_from_end (strip_message message)"
      using wp(4) wp(5) by simp
  qed
  have "24 \<le> length (imu_window (strip_message message))"
    and "(length (imu_window (strip_message message)) = 24) = (length message = 134)"
    using long lw by auto
  with wp(1) wp(2) wp(4) wp(5) pk eq show ?thesis
    by (simp only: simp_thms)
qed

text \<open>The window of C5 on the 134-byte frame of a sensor at rest.\<close>

theorem window_placement_witness:
  "length (imu_window (strip_message (rest_frame (replicate 20 9)))) = 24
   \<and> imu_window (strip_message (rest_frame (replicate 20 9)))
      = window_from_start (strip_message (rest_frame (replicate 20 9)))
   \<and> window_from_start (strip_message (rest_frame (replicate 20 9)))
      = window_from_end (strip_message (rest_frame (replicate 20 9)))
   \<and> window_from_start (strip_message (rest_frame (replicate 20 9)))
      = pack_window \<lparr>gx = 0, gy = 0, gz = 0, ax = 0, ay = 0, az = 0xBF800000\<rparr>"
proof -
  have dec: "process_message (rest_frame (replicate 20 9))
      = Some \<lparr>gx = 0, gy = 0, gz = 0, ax = 0, ay = 0, az = 0xBF800000\<rparr>"
    by code_simp
  have len: "length (rest_frame (replicate 20 9)) = 134"
    by code_simp
  show ?thesis
    using window_placement [OF dec] len by blast
qed

text \<open>
  C5, as stated, fails: a frame with 24 bytes between the values and the
  sensor-message marker (a payload of 74 bytes) is decoded, its window is 28 bytes
  long, and the 24 bytes at offset 20 differ from the 24 bytes that end 26 bytes
  before the end of the payload.
\<close>

theorem long_window_is_decoded:
  "process_message (rest_frame (replicate 24 9))
     = Some \<lparr>gx = 0, gy = 0, gz = 0, ax = 0, ay = 0, az = 0xBF800000\<rparr>
   \<and> length (imu_window (strip_message (rest_frame (replicate 24 9)))) = 28
   \<and> window_from_start (strip_message (rest_frame (replicate 24 9)))
     \<noteq> window_from_end (strip_message (rest_frame (replicate 24 9)))"
  by code_simp

section \<open>The framing loop: chunk boundaries\<close>

lemma take_append_le: "n \<le> length ys \<Longrightarrow> take n (ys @ e) = take n ys"
  by simp

lemma find_sub_bound:
  "find_sub sub xs = Some i \<Longrightarrow> i + length sub \<le> length xs"
proof (induction xs arbitrary: i)
  case Nil
  then show ?case by (simp split: if_splits)
next
  case (Cons x xs)
  show ?case
  proof (cases "take (length sub) (x # xs) = sub")
    case True
    then have "length (take (length sub) (x # xs)) = length sub"
      by simp
    then have "length sub \<le> length (x # xs)"
      by (simp only: length_take)
    moreover from True Cons.prems have "i = 0"
      by simp
    ultimately show ?thesis by simp
  next
    case False
    with Cons.prems obtain j where "find_sub sub xs = Some j" and "i = Suc j"
      by auto
    with Cons.IH [of j] show ?thesis by simp
  qed
qed

lemma find_sub_append:
  "find_sub sub xs = Some i \<Longrightarrow> find_sub sub (xs @ e) = Some i"
proof (induction xs arbitrary: i)
  case Nil
  then have "sub = []" and "i = 0"
    by (simp_all split: if_splits)
  then show ?case by (cases e) simp_all
next
  case (Cons x xs)
  show ?case
  proof (cases "take (length sub) (x # xs) = sub")
    case True
    then have "length (take (length sub) (x # xs)) = length sub"
      by simp
    then have "length sub \<le> length (x # xs)"
      by (simp only: length_take)
    then have "take (length sub) ((x # xs) @ e) = take (length sub) (x # xs)"
      by (rule take_append_le)
    with True Cons.prems show ?thesis by simp
  next
    case False
    with Cons.prems obtain j where j: "find_sub sub xs = Some j" and i: "i = Suc j"
      by auto
    from find_sub_bound [OF j] have "length sub \<le> length (x # xs)"
      by simp
    then have "take (length sub) ((x # xs) @ e) = take (length sub) (x # xs)"
      by (rule take_append_le)
    with False have "take (length sub) ((x # xs) @ e) \<noteq> sub"
      by simp
    with Cons.IH [OF j] i show ?thesis by simp
  qed
qed

lemma find_from_append:
  "find_from sub xs start = Some i \<Longrightarrow> find_from sub (xs @ e) start = Some i"
proof -
  assume a: "find_from sub xs start = Some i"
  then have st: "start \<le> length xs"
    by (simp add: find_from_def split: if_splits)
  with a obtain j where j: "find_sub sub (drop start xs) = Some j" and i: "i = j + start"
    by (auto simp add: find_from_def)
  from st have "drop start (xs @ e) = drop start xs @ e"
    by simp
  with find_sub_append [OF j, of e] i st show ?thesis
    by (simp add: find_from_def)
qed

lemma find_from_bound:
  "find_from sub xs start = Some i \<Longrightarrow> i + length sub \<le> length xs"
proof -
  assume a: "find_from sub xs start = Some i"
  then have st: "start \<le> length xs"
    by (simp add: find_from_def split: if_splits)
  with a obtain j where j: "find_sub sub (drop start xs) = Some j" and i: "i = j + start"
    by (auto simp add: find_from_def)
  from find_sub_bound [OF j] st i show ?thesis by simp
qed

lemma next_message_append:
  assumes "next_message buf = Some (m, rest)"
  shows "next_message (buf @ e) = Some (m, rest @ e)"
proof -
  from assms obtain hp where hp: "find_sub HEADER buf = Some hp"
    by (auto simp add: next_message_def split: option.splits)
  with assms obtain fp where fp: "find_from FOOTER buf hp = Some fp"
    by (auto simp add: next_message_def split: option.splits)
  from assms hp fp have m: "m = drop hp (take (fp + length FOOTER) buf)"
    and r: "rest = drop (fp + length FOOTER) buf"
    by (simp_all add: next_message_def Let_def)
  from find_from_bound [OF fp] have le: "fp + length FOOTER \<le> length buf" .
  then have td: "take (fp + length FOOTER) (buf @ e) = take (fp + length FOOTER) buf"
    "drop (fp + length FOOTER) (buf @ e) = drop (fp + length FOOTER) buf @ e"
    by simp_all
  have "next_message (buf @ e)
      = Some (drop hp (take (fp + length FOOTER) (buf @ e)), drop (fp + length FOOTER) (buf @ e))"
    by (simp add: next_message_def Let_def find_sub_append [OF hp] find_from_append [OF fp])
  then show ?thesis
    by (simp only: td m r)
qed

lemma drain_None: "next_message buf = None \<Longrightarrow> drain buf = ([], buf)"
  by (subst drain.simps) (simp del: drain.simps)

lemma drain_Some:
  "next_message buf = Some (m, rest)
   \<Longrightarrow> drain buf = (m # fst (drain rest), snd (drain rest))"
  by (subst drain.simps) (simp add: case_prod_unfold Let_def del: drain.simps)

lemma drain_append:
  "drain (buf @ e) = (fst (drain buf) @ fst (drain (snd (drain buf) @ e)),
      snd (drain (snd (drain buf) @ e)))"
proof (induction buf rule: drain.induct)
  case (1 buf)
  show ?case
  proof (cases "next_message buf")
    case None
    then show ?thesis
      by (simp only: drain_None fst_conv snd_conv append_Nil prod.collapse)
  next
    case (Some mr)
    then obtain m rest where nm: "next_message buf = Some (m, rest)"
      by (cases mr) simp
    have ih: "drain (rest @ e) = (fst (drain rest) @ fst (drain (snd (drain rest) @ e)),
        snd (drain (snd (drain rest) @ e)))"
      using "1.IH" [OF nm refl] .
    have "drain (buf @ e) = (m # fst (drain (rest @ e)), snd (drain (rest @ e)))"
      using next_message_append [OF nm, of e] by (rule drain_Some)
    also have "\<dots> = (m # fst (drain rest) @ fst (drain (snd (drain rest) @ e)),
        snd (drain (snd (drain rest) @ e)))"
      by (subst (1 2) ih) simp
    finally show ?thesis
      by (simp only: drain_Some [OF nm] fst_conv snd_conv append_Cons)
  qed
qed

lemma drain_drained: "next_message (snd (drain buf)) = None"
proof (induction buf rule: drain.induct)
  case (1 buf)
  show ?case
  proof (cases "next_message buf")
    case None
    then show ?thesis by (simp only: drain_None snd_conv)
  next
    case (Some mr)
    then obtain m rest where nm: "next_message buf = Some (m, rest)"
      by (cases mr) simp
    from "1.IH" [OF nm refl] show ?thesis
      by (simp only: drain_Some [OF nm] snd_conv)
  qed
qed

lemma feed_all_drain:
  "next_message buf = None \<Longrightarrow> feed_all buf chunks = drain (buf @ concat chunks)"
proof (induction chunks arbitrary: buf)
  case Nil
  then show ?case by (simp only: feed_all.simps concat.simps append_Nil2 drain_None)
next
  case (Cons c cs)
  have "feed_all (snd (drain (buf @ c))) cs = drain (snd (drain (buf @ c)) @ concat cs)"
    by (rule Cons.IH) (rule drain_drained)
  moreover have "drain (buf @ concat (c # cs))
      = (fst (drain (buf @ c)) @ fst (drain (snd (drain (buf @ c)) @ concat cs)),
         snd (drain (snd (drain (buf @ c)) @ concat cs)))"
    using drain_append [of "buf @ c" "concat cs"] by simp
  ultimately show ?case
    by (simp add: feed_def case_prod_unfold Let_def del: drain.simps)
qed

lemma next_message_Nil: "next_message [] = None"
  by (simp add: next_message_def HEADER_def)

lemma feed_all_stream: "feed_all [] chunks = drain (concat chunks)"
  using feed_all_drain [OF next_message_Nil, of chunks] by simp

lemma run_loop_feed_all:
  "[] \<notin> set chunks \<Longrightarrow> run_loop buf chunks = fst (feed_all buf chunks)"
proof (induction chunks arbitrary: buf)
  case Nil
  show ?case by simp
next
  case (Cons c cs)
  then have c: "c \<noteq> []" and cs: "[] \<notin> set cs"
    by auto
  have "run_loop (snd (feed buf c)) cs = fst (feed_all (snd (feed buf c)) cs)"
    using cs by (rule Cons.IH)
  with c show ?case
    by (simp add: case_prod_unfold Let_def del: drain.simps)
qed

text \<open>
  C8. For every byte stream and every way of cutting it into chunks, the chunks
  fed one at a time (the buffer grown by the chunk, then the inner loop run until it
  breaks) give the same frames in the same order, and leave the same bytes in the
  buffer, as the whole stream fed as one chunk: both give what the inner loop cuts
  out of the whole stream. Hence the decoded samples are the same too. In
  \<open>IMUReader.run\<close> an empty result of \<open>recv\<close> ends the loop, so that there the chunks are
  not empty; for such chunks \<open>run\<close> hands the same samples to the callback either way.
\<close>

theorem chunk_boundary_independence:
  "feed_all [] chunks = feed_all [] [concat chunks]
   \<and> fst (feed_all [] chunks) = fst (drain (concat chunks))
   \<and> decoded (fst (feed_all [] chunks)) = decoded (fst (feed_all [] [concat chunks]))
   \<and> ([] \<notin> set chunks
      \<longrightarrow> run_loop [] chunks = run_loop [] [concat chunks]
        \<and> run chunks = run [concat chunks])"
proof -
  have "concat [concat chunks] = concat chunks"
    by simp
  then have one: "feed_all [] [concat chunks] = drain (concat chunks)"
    by (simp only: feed_all_stream)
  have eq: "feed_all [] chunks = feed_all [] [concat chunks]"
    unfolding one by (rule feed_all_stream)
  have loop: "run_loop [] chunks = run_loop [] [concat chunks]" if ne: "[] \<notin> set chunks"
  proof (cases "concat chunks = []")
    case True
    with ne have "chunks = []"
      by (cases chunks) auto
    then show ?thesis by simp
  next
    case False
    then have "[] \<notin> set [concat chunks]"
      by simp
    then have "run_loop [] [concat chunks] = fst (feed_all [] [concat chunks])"
      by (rule run_loop_feed_all)
    moreover have "run_loop [] chunks = fst (feed_all [] chunks)"
      using ne by (rule run_loop_feed_all)
    ultimately show ?thesis
      by (simp only: eq)
  qed
  then have "[] \<notin> set chunks
      \<longrightarrow> run_loop [] chunks = run_loop [] [concat chunks] \<and> run chunks = run [concat chunks]"
    by (simp add: run_def)
  moreover have "fst (feed_all [] chunks) = fst (drain (concat chunks))"
    by (simp only: feed_all_stream)
  moreover have "decoded (fst (feed_all [] chunks)) = decoded (fst (feed_all [] [concat chunks]))"
    by (simp only: eq)
  ultimately show ?thesis
    using eq by blast
qed

text \<open>C8 on a stream of two frames cut inside both of them: the two samples come out
  in both cases.\<close>

theorem chunk_boundary_independence_witness:
  "[] \<notin> set split_stream
   \<and> run_loop [] split_stream = run_loop [] [concat split_stream]
   \<and> run split_stream = run [concat split_stream]
   \<and> run split_stream
      = [\<lparr>gx = 0, gy = 0, gz = 0, ax = 0, ay = 0, az = 0xBF800000\<rparr>,
         \<lparr>gx = 0, gy = 0, gz = 0, ax = 0, ay = 0, az = 0xBF800000\<rparr>]
   \<and> length (run_loop [] split_stream) = 2"
proof -
  have ne: "[] \<notin> set split_stream"
    by code_simp
  have r: "run split_stream
      = [\<lparr>gx = 0, gy = 0, gz = 0, ax = 0, ay = 0, az = 0xBF800000\<rparr>,
         \<lparr>gx = 0, gy = 0, gz = 0, ax = 0, ay = 0, az = 0xBF800000\<rparr>]"
    by code_simp
  have l: "length (run_loop [] split_stream) = 2"
    by code_simp
  show ?thesis
    using chunk_boundary_independence [of split_stream] ne r l by blast
qed

end
